theory Spec2Isabelle
  imports Main "HOL-Library.Word" "HOL-Library.Signed_Division"
begin

unbundle bit_operations_syntax

section \<open>Machine types\<close>

text \<open>
  \<open>byte\<close> is Arduino's \<open>uint8_t\<close>, the measurement fields are \<open>uint16_t\<close>, every time
  value of the driver is an \<open>int64_t\<close>, the pin number is an \<open>int8_t\<close>.  The counter
  \<open>millis()\<close> is an \<open>unsigned long\<close> of 32 bits; \<open>int\<close> is taken as 32 bits wide (the
  driver uses the ESP software serial port).
\<close>

type_synonym byte = "8 word"
type_synonym uint16 = "16 word"
type_synonym int64 = "64 word"

section \<open>The environment: clock, serial transport, output pins\<close>

text \<open>
  The clock, the serial stream and the pins are outside the driver.  A \<open>world\<close> holds what
  they will answer: \<open>clock\<close> lists the values the coming calls of \<open>millis()\<close> return,
  \<open>uart\<close> lists the chunks of bytes the coming calls of \<open>readBytes\<close> deliver (an empty
  chunk is a read that comes back with nothing), \<open>nreads\<close> counts the calls of
  \<open>readBytes\<close> made so far, and \<open>pins\<close> logs the pin operations, the latest first.
  A call for which the world holds no answer has the value \<open>None\<close>.
\<close>

datatype pin_op = PinModeOutput | WriteLOW | WriteHIGH

record world =
  clock :: "32 word list"
  uart :: "byte list list"
  nreads :: nat
  pins :: "(8 word \<times> pin_op) list"

text \<open>\<open>(int64_t)millis()\<close>: every use in the driver casts the counter to \<open>int64_t\<close>.\<close>

definition millis :: "world \<Rightarrow> (int64 \<times> world) option" where
  "millis w = (case clock w of
      [] \<Rightarrow> None
    | t # ts \<Rightarrow> Some (ucast t, w\<lparr>clock := ts\<rparr>))"

text \<open>
  \<open>_uart->readBytes(p, len)\<close> hands over at most \<open>len\<close> bytes of the next chunk; what
  the caller did not ask for stays in the stream.
\<close>

definition readBytes :: "nat \<Rightarrow> world \<Rightarrow> (byte list \<times> world) option" where
  "readBytes len w = (case uart w of
      [] \<Rightarrow> None
    | r # rs \<Rightarrow> Some (take len r,
        w\<lparr>uart := (if length r \<le> len then rs else drop len r # rs),
          nreads := Suc (nreads w)\<rparr>))"

definition pinMode_OUTPUT :: "8 word \<Rightarrow> world \<Rightarrow> world" where
  "pinMode_OUTPUT p w = w\<lparr>pins := (p, PinModeOutput) # pins w\<rparr>"

definition digitalWrite_LOW :: "8 word \<Rightarrow> world \<Rightarrow> world" where
  "digitalWrite_LOW p w = w\<lparr>pins := (p, WriteLOW) # pins w\<rparr>"

definition digitalWrite_HIGH :: "8 word \<Rightarrow> world \<Rightarrow> world" where
  "digitalWrite_HIGH p w = w\<lparr>pins := (p, WriteHIGH) # pins w\<rparr>"

section \<open>The driver object\<close>

text \<open>
  The members of class \<open>PMS5003\<close>.  \<open>m_uart\<close> is \<open>_uart != NULL\<close>; the two serial
  pointers behind it play no part in the methods modelled here.
\<close>

record PMS5003 =
  pm1p0std :: uint16
  pm2p5std :: uint16
  pm10std :: uint16
  pm1p0atm :: uint16
  pm2p5atm :: uint16
  pm10atm :: uint16
  nc0p3um :: uint16
  nc0p5um :: uint16
  nc1p0um :: uint16
  nc2p5um :: uint16
  nc5p0um :: uint16
  nc10um :: uint16
  m_isReady :: bool
  m_isSleeping :: bool
  m_uart :: bool
  m_wakeUpTime :: int64
  m_sleepPin :: "8 word"

definition PREHEAT_TIME :: int64 where
  "PREHEAT_TIME = 30000"

definition READ_TIMEOUT :: int64 where
  "READ_TIMEOUT = 800"

definition TRIES_NUM :: nat where
  "TRIES_NUM = 3"

section \<open>init, isReady, isSleeping, WakeUp\<close>

definition init :: "8 word \<Rightarrow> bool \<Rightarrow> PMS5003 \<Rightarrow> world \<Rightarrow> (PMS5003 \<times> world) option" where
  "init sleepPin sleep d w =
    (let d1 = d\<lparr>m_isReady := False, m_sleepPin := sleepPin\<rparr> in
     if 0 \<le>s sleepPin then
       (let w1 = pinMode_OUTPUT sleepPin w in
        if sleep then Some (d1\<lparr>m_isSleeping := True\<rparr>, digitalWrite_LOW sleepPin w1)
        else (case millis (digitalWrite_HIGH sleepPin w1) of
            None \<Rightarrow> None
          | Some (t, w2) \<Rightarrow> Some (d1\<lparr>m_isSleeping := False, m_wakeUpTime := t\<rparr>, w2)))
     else (case millis w of
         None \<Rightarrow> None
       | Some (t, w1) \<Rightarrow> Some (d1\<lparr>m_isSleeping := False, m_wakeUpTime := t\<rparr>, w1)))"

text \<open>In \<open>isReady\<close> the clock is read only when \<open>_uart != NULL\<close> (\<open>&&\<close> short-circuits).\<close>

definition isReady :: "PMS5003 \<Rightarrow> world \<Rightarrow> (bool \<times> PMS5003 \<times> world) option" where
  "isReady d w =
    (if m_isSleeping d then Some (False, d, w)
     else if m_isReady d then Some (True, d, w)
     else if m_uart d then
       (case millis w of
           None \<Rightarrow> None
         | Some (t, w1) \<Rightarrow>
             if PREHEAT_TIME <s t - m_wakeUpTime d
             then Some (True, d\<lparr>m_isReady := True\<rparr>, w1)
             else Some (False, d, w1))
     else Some (False, d, w))"

definition isSleeping :: "PMS5003 \<Rightarrow> bool" where
  "isSleeping d = m_isSleeping d"

definition WakeUp :: "PMS5003 \<Rightarrow> world \<Rightarrow> (bool \<times> PMS5003 \<times> world) option" where
  "WakeUp d w =
    (if 0 \<le>s m_sleepPin d \<and> m_isSleeping d then
       (case millis (digitalWrite_HIGH (m_sleepPin d) w) of
           None \<Rightarrow> None
         | Some (t, w1) \<Rightarrow> Some (True, d\<lparr>m_isSleeping := False, m_wakeUpTime := t\<rparr>, w1))
     else Some (\<not> m_isSleeping d, d, w))"

section \<open>getDataInternal: the frame reader\<close>

text \<open>What \<open>readBytes(buff + n, len)\<close> leaves in the buffer: the bytes read, from index \<open>n\<close> on.\<close>

fun store :: "byte list \<Rightarrow> nat \<Rightarrow> byte list \<Rightarrow> byte list" where
  "store buff n [] = buff"
| "store buff n (b # bs) = store (buff[n := b]) (Suc n) bs"

text \<open>
  A loop of the reader ends either by \<open>return 1\<close> (the time window is over) or by its
  exit condition, with the buffer it has filled.  \<open>Expired k\<close> records, beside the
  \<open>return 1\<close>, the value \<open>k\<close> that \<open>n\<close> had when the pass that ran out of time
  began: the number of frame bytes in the buffer at the last clock reading inside the
  window.  Nothing in the driver reads it.
\<close>

datatype 'a window = Expired nat | InTime 'a

text \<open>
  The first \<open>do ... while\<close> loop (the search for the marker \<open>0x42 0x4D\<close>).  \<open>yield()\<close>
  changes nothing the driver sees.
\<close>

function resync :: "int64 \<Rightarrow> byte list \<Rightarrow> nat \<Rightarrow> world \<Rightarrow> (byte list window \<times> world) option" where
  "resync startTime buff n w =
    (case readBytes 1 w of
        None \<Rightarrow> None
      | Some (bs, w1) \<Rightarrow>
          (let buff1 = store buff n bs;
               (n2, buff2) =
                 (if 0 < length bs then
                    (if n = 0 \<and> buff1 ! 0 = 0x42 then (1, buff1[1 := 0])
                     else if n = 1 \<and> buff1 ! 1 \<noteq> 0x4D then (0, buff1)
                     else (n, buff1))
                  else (n, buff1))
           in (case millis w1 of
                  None \<Rightarrow> None
                | Some (t, w2) \<Rightarrow>
                    if READ_TIMEOUT \<le>s t - startTime then Some (Expired n, w2)
                    else if buff2 ! 0 \<noteq> 0x42 \<or> buff2 ! 1 \<noteq> 0x4D
                      then resync startTime buff2 n2 w2
                    else Some (InTime buff2, w2))))"
  by pat_completeness auto
termination
  by (relation "measure (\<lambda>(startTime, buff, n, w). length (clock w))")
     (auto simp: readBytes_def millis_def split: list.splits)

text \<open>The second \<open>do ... while\<close> loop (the remaining 30 bytes, in chunks).\<close>

function fill :: "int64 \<Rightarrow> byte list \<Rightarrow> nat \<Rightarrow> world \<Rightarrow> (byte list window \<times> world) option" where
  "fill startTime buff n w =
    (case readBytes (32 - n) w of
        None \<Rightarrow> None
      | Some (bs, w1) \<Rightarrow>
          (let buff1 = store buff n bs;
               n1 = (if 0 < length bs then n + length bs else n)
           in (case millis w1 of
                  None \<Rightarrow> None
                | Some (t, w2) \<Rightarrow>
                    if READ_TIMEOUT \<le>s t - startTime then Some (Expired n, w2)
                    else if n1 < 32 then fill startTime buff1 n1 w2
                    else Some (InTime buff1, w2))))"
  by pat_completeness auto
termination
  by (relation "measure (\<lambda>(startTime, buff, n, w). length (clock w))")
     (auto simp: readBytes_def millis_def split: list.splits)

text \<open>\<open>uint16_t(hi)<<8 | uint16_t(lo)\<close>\<close>

definition be16 :: "byte \<Rightarrow> byte \<Rightarrow> uint16" where
  "be16 hi lo = push_bit 8 (ucast hi) OR ucast lo"

text \<open>\<open>for (int i = 0; i < 30; i++) crcSum += buff[i];\<close> on a \<open>uint16_t\<close> that starts at 0.\<close>

function crc_loop :: "byte list \<Rightarrow> nat \<Rightarrow> uint16 \<Rightarrow> uint16" where
  "crc_loop buff i crcSum =
    (if i < 30 then crc_loop buff (Suc i) (crcSum + ucast (buff ! i)) else crcSum)"
  by pat_completeness auto
termination
  by (relation "measure (\<lambda>(buff, i, crcSum). 30 - i)") auto

text \<open>The twelve assignments that end \<open>getDataInternal\<close>.\<close>

definition decode :: "byte list \<Rightarrow> PMS5003 \<Rightarrow> PMS5003" where
  "decode buff d = d
    \<lparr>pm1p0std := be16 (buff ! 4) (buff ! 5),
     pm2p5std := be16 (buff ! 6) (buff ! 7),
     pm10std := be16 (buff ! 8) (buff ! 9),
     pm1p0atm := be16 (buff ! 10) (buff ! 11),
     pm2p5atm := be16 (buff ! 12) (buff ! 13),
     pm10atm := be16 (buff ! 14) (buff ! 15),
     nc0p3um := be16 (buff ! 16) (buff ! 17),
     nc0p5um := be16 (buff ! 18) (buff ! 19),
     nc1p0um := be16 (buff ! 20) (buff ! 21),
     nc2p5um := be16 (buff ! 22) (buff ! 23),
     nc5p0um := be16 (buff ! 24) (buff ! 25),
     nc10um := be16 (buff ! 26) (buff ! 27)\<rparr>"

text \<open>The part of \<open>getDataInternal\<close> after the loops: the two checks, then the decoding.\<close>

definition validate :: "byte list \<Rightarrow> PMS5003 \<Rightarrow> int \<times> PMS5003" where
  "validate buff d =
    (let crcSum = crc_loop buff 0 0;
         frameLength = be16 (buff ! 2) (buff ! 3);
         crc = be16 (buff ! 30) (buff ! 31)
     in if crcSum \<noteq> crc \<or> frameLength \<noteq> 28 then (2, d)
        else (0, decode buff d))"

text \<open>
  The two loops, from the buffer as \<open>memset(buff, 0, 2)\<close> leaves it.  The source does not
  initialise bytes 2 to 31; they are written by the second loop before they are read.
\<close>

definition read_frame :: "int64 \<Rightarrow> world \<Rightarrow> (byte list window \<times> world) option" where
  "read_frame startTime w =
    (case resync startTime (replicate 32 0) 0 w of
        None \<Rightarrow> None
      | Some (Expired k, w1) \<Rightarrow> Some (Expired k, w1)
      | Some (InTime buff, w1) \<Rightarrow> fill startTime buff 2 w1)"

text \<open>The result is 0 (OK), 1 (timed out) or 2 (bad data).\<close>

definition getDataInternal :: "int64 \<Rightarrow> PMS5003 \<Rightarrow> world \<Rightarrow> (int \<times> PMS5003 \<times> world) option" where
  "getDataInternal startTime d w =
    (case read_frame startTime w of
        None \<Rightarrow> None
      | Some (Expired k, w1) \<Rightarrow> Some (1, d, w1)
      | Some (InTime buff, w1) \<Rightarrow>
          (case validate buff d of (r, d1) \<Rightarrow> Some (r, d1, w1)))"

section \<open>getData and Sleep\<close>

text \<open>The \<open>for\<close> loop of \<open>getData\<close> with its \<open>switch\<close>; after the loop \<open>return 0\<close>.\<close>

function tries :: "nat \<Rightarrow> int64 \<Rightarrow> PMS5003 \<Rightarrow> world \<Rightarrow> (int \<times> PMS5003 \<times> world) option" where
  "tries i startTime d w =
    (if i < TRIES_NUM then
       (case getDataInternal startTime d w of
           None \<Rightarrow> None
         | Some (r, d1, w1) \<Rightarrow>
             if r = 0 then Some (1, d1, w1)
             else if r = 1 then Some (0, d1, w1)
             else if r = 2 then
               (case millis w1 of
                   None \<Rightarrow> None
                 | Some (t, w2) \<Rightarrow> tries (Suc i) t d1 w2)
             else tries (Suc i) startTime d1 w1)
     else Some (0, d, w))"
  by pat_completeness auto
termination
  by (relation "measure (\<lambda>(i, startTime, d, w). TRIES_NUM - i)") auto

text \<open>
  The value returned during preheat is \<open>(int)((timeFromWakeUp - PREHEAT_TIME) / 1000)\<close>:
  a division of \<open>int64_t\<close> that truncates towards zero, then the cast to \<open>int\<close>.
\<close>

definition preheat_left :: "int64 \<Rightarrow> int" where
  "preheat_left timeFromWakeUp =
    sint (scast (word_of_int (sint (timeFromWakeUp - PREHEAT_TIME) sdiv 1000) :: int64) :: 32 word)"

definition getData :: "PMS5003 \<Rightarrow> world \<Rightarrow> (int \<times> PMS5003 \<times> world) option" where
  "getData d w =
    (if \<not> m_uart d \<or> m_isSleeping d then Some (0, d, w)
     else (case millis w of
         None \<Rightarrow> None
       | Some (startTime, w1) \<Rightarrow>
           (let timeFromWakeUp = startTime - m_wakeUpTime d in
            if timeFromWakeUp \<le>s PREHEAT_TIME then Some (preheat_left timeFromWakeUp, d, w1)
            else tries 0 startTime d w1)))"

text \<open>\<open>for (int i = 0; i < 2; i++) getData();\<close>\<close>

function drain :: "nat \<Rightarrow> PMS5003 \<Rightarrow> world \<Rightarrow> (PMS5003 \<times> world) option" where
  "drain i d w =
    (if i < 2 then
       (case getData d w of
           None \<Rightarrow> None
         | Some (r, d1, w1) \<Rightarrow> drain (Suc i) d1 w1)
     else Some (d, w))"
  by pat_completeness auto
termination
  by (relation "measure (\<lambda>(i, d, w). 2 - i)") auto

definition Sleep :: "PMS5003 \<Rightarrow> world \<Rightarrow> (bool \<times> PMS5003 \<times> world) option" where
  "Sleep d w =
    (if 0 \<le>s m_sleepPin d then
       (case drain 0 (d\<lparr>m_isReady := False, m_isSleeping := True\<rparr>)
                     (digitalWrite_LOW (m_sleepPin d) w) of
           None \<Rightarrow> None
         | Some (d1, w1) \<Rightarrow> Some (m_isSleeping d1, d1, w1))
     else Some (m_isSleeping d, d, w))"

section \<open>Vocabulary of the statements\<close>

text \<open>
  The test \<open>(int64_t)millis() - startTime >= READ_TIMEOUT\<close> at the clock value \<open>c\<close>: the
  time window of the attempt that started at \<open>startTime\<close> is over.
\<close>

abbreviation expired :: "int64 \<Rightarrow> 32 word \<Rightarrow> bool" where
  "expired startTime c \<equiv> READ_TIMEOUT \<le>s ucast c - startTime"

text \<open>
  One pass of the first loop up to its clock check, as a function of the bytes the read
  delivered: the new \<open>n\<close> and the new buffer (the same text as in \<open>resync\<close>).
\<close>

definition turn :: "byte list \<Rightarrow> nat \<Rightarrow> byte list \<Rightarrow> nat \<times> byte list" where
  "turn buff n bs =
     (if 0 < length bs then
        (if n = 0 \<and> store buff n bs ! 0 = 0x42 then (1, (store buff n bs)[1 := 0])
         else if n = 1 \<and> store buff n bs ! 1 \<noteq> 0x4D then (0, store buff n bs)
         else (n, store buff n bs))
      else (n, store buff n bs))"

text \<open>What holds of \<open>buff\<close> and \<open>n\<close> whenever the first loop starts a pass.\<close>

definition marker_inv :: "byte list \<Rightarrow> nat \<Rightarrow> bool" where
  "marker_inv buff n \<longleftrightarrow>
     2 \<le> length buff \<and> n \<le> 1 \<and> buff ! 1 \<noteq> 0x4D \<and> (n = 1 \<longrightarrow> buff ! 0 = 0x42)"

text \<open>
  The two integrity checks in the words of the wire format, on natural numbers: the sum of
  bytes 0 to 29 modulo \<open>2^16\<close> is the big-endian number in bytes 30 and 31, and the
  big-endian number in bytes 2 and 3 is 28.
\<close>

definition frame_ok :: "byte list \<Rightarrow> bool" where
  "frame_ok buff \<longleftrightarrow>
     (\<Sum>j = 0..<30. unat (buff ! j)) mod 2 ^ 16 = 256 * unat (buff ! 30) + unat (buff ! 31)
     \<and> 256 * unat (buff ! 2) + unat (buff ! 3) = 28"

text \<open>The twelve public data members, in the order of their declaration.\<close>

definition measurement :: "PMS5003 \<Rightarrow> uint16 list" where
  "measurement d = [pm1p0std d, pm2p5std d, pm10std d, pm1p0atm d, pm2p5atm d, pm10atm d,
     nc0p3um d, nc0p5um d, nc1p0um d, nc2p5um d, nc5p0um d, nc10um d]"

text \<open>
  \<open>_wakeUpTime\<close> is only ever assigned \<open>(int64_t)millis()\<close>, so it lies in the range of the
  32-bit counter.
\<close>

definition clock_value :: "int64 \<Rightarrow> bool" where
  "clock_value t \<longleftrightarrow> 0 \<le>s t \<and> t <s 0x100000000"

section \<open>Concrete inputs\<close>

text \<open>
  A frame of the sensor with the field values 1 to 12: marker, length 28, the twelve
  fields, the two bytes the driver does not decode, and the checksum
  \<open>0x42 + 0x4D + 0x1C + (1 + ... + 12) + 0x97 = 0x0190\<close>.
\<close>

definition frameA :: "byte list" where
  "frameA = [0x42, 0x4D, 0x00, 0x1C,
     0, 1, 0, 2, 0, 3, 0, 4, 0, 5, 0, 6, 0, 7, 0, 8, 0, 9, 0, 10, 0, 11, 0, 12,
     0x97, 0x00, 0x01, 0x90]"

text \<open>The same frame with a wrong last checksum byte.\<close>

definition frameB :: "byte list" where
  "frameB = [0x42, 0x4D, 0x00, 0x1C,
     0, 1, 0, 2, 0, 3, 0, 4, 0, 5, 0, 6, 0, 7, 0, 8, 0, 9, 0, 10, 0, 11, 0, 12,
     0x97, 0x00, 0x01, 0x91]"

text \<open>
  A driver on the hardware port with sleep pin 5, awake since clock value 0, whose
  readiness has not been queried yet; and the same driver once \<open>isReady\<close> has set the flag.
\<close>

definition driver0 :: PMS5003 where
  "driver0 = \<lparr>pm1p0std = 0, pm2p5std = 0, pm10std = 0, pm1p0atm = 0, pm2p5atm = 0,
     pm10atm = 0, nc0p3um = 0, nc0p5um = 0, nc1p0um = 0, nc2p5um = 0, nc5p0um = 0,
     nc10um = 0, m_isReady = False, m_isSleeping = False, m_uart = True,
     m_wakeUpTime = 0, m_sleepPin = 5\<rparr>"

definition driverR :: PMS5003 where
  "driverR = driver0\<lparr>m_isReady := True\<rparr>"

text \<open>A world with the given clock values and chunks, no read made and no pin touched.\<close>

definition sensor_world :: "32 word list \<Rightarrow> byte list list \<Rightarrow> world" where
  "sensor_world clk chunks = \<lparr>clock = clk, uart = chunks, nreads = 0, pins = []\<rparr>"

section \<open>The environment calls\<close>

declare resync.simps [simp del] fill.simps [simp del] tries.simps [simp del]
  drain.simps [simp del] crc_loop.simps [simp del]

lemma store_length: "length (store buff n bs) = length buff"
  by (induction bs arbitrary: buff n) auto

lemma readBytes_SomeD:
  assumes "readBytes len w = Some (bs, w1)"
  shows "clock w1 = clock w" and "pins w1 = pins w" and "nreads w1 = Suc (nreads w)"
    and "length bs \<le> len" and "concat (uart w) = bs @ concat (uart w1)"
  using assms
  by (auto simp: readBytes_def split: list.splits if_splits)

lemma millis_SomeD:
  assumes "millis w = Some (t, w1)"
  shows "\<exists>c. clock w = c # clock w1 \<and> t = ucast c"
    and "uart w1 = uart w" and "pins w1 = pins w" and "nreads w1 = nreads w"
  using assms
  by (auto simp: millis_def split: list.splits)

lemma length_le1_cases: "length (bs :: 'a list) \<le> 1 \<Longrightarrow> bs = [] \<or> (\<exists>b. bs = [b])"
  by (cases bs) auto

lemma resync_cases:
  assumes "resync st buff n w = Some (res, w')"
  obtains bs w1 c n2 buff2 where
    "readBytes 1 w = Some (bs, w1)" "clock w1 = c # clock w'" "uart w' = uart w1"
    "pins w' = pins w1" "nreads w' = nreads w1"
    "turn buff n bs = (n2, buff2)" "expired st c" "res = Expired n"
  | bs w1 c n2 buff2 where
    "readBytes 1 w = Some (bs, w1)" "clock w1 = c # clock w'" "uart w' = uart w1"
    "pins w' = pins w1" "nreads w' = nreads w1"
    "turn buff n bs = (n2, buff2)" "\<not> expired st c" "buff2 ! 0 = 0x42" "buff2 ! 1 = 0x4D"
    "res = InTime buff2"
  | bs w1 c w2 n2 buff2 where
    "readBytes 1 w = Some (bs, w1)" "clock w1 = c # clock w2" "uart w2 = uart w1"
    "pins w2 = pins w1" "nreads w2 = nreads w1"
    "turn buff n bs = (n2, buff2)" "\<not> expired st c" "buff2 ! 0 \<noteq> 0x42 \<or> buff2 ! 1 \<noteq> 0x4D"
    "resync st buff2 n2 w2 = Some (res, w')"
proof -
  from assms obtain bs w1 where rb: "readBytes 1 w = Some (bs, w1)"
    by (subst (asm) resync.simps) (auto split: option.splits)
  obtain n2 buff2 where tn: "turn buff n bs = (n2, buff2)"
    by (cases "turn buff n bs") auto
  from assms rb obtain t w2 where ml: "millis w1 = Some (t, w2)"
    by (subst (asm) resync.simps) (auto split: option.splits prod.splits simp: Let_def)
  from millis_SomeD [OF ml] obtain c where
    c: "clock w1 = c # clock w2" "t = ucast c" "uart w2 = uart w1" "pins w2 = pins w1"
       "nreads w2 = nreads w1"
    by auto
  from assms rb tn ml have body:
    "(if READ_TIMEOUT \<le>s t - st then Some (Expired n, w2)
      else if buff2 ! 0 \<noteq> 0x42 \<or> buff2 ! 1 \<noteq> 0x4D then resync st buff2 n2 w2
      else Some (InTime buff2, w2)) = Some (res, w')"
    by (subst (asm) resync.simps) (auto simp: turn_def Let_def split: if_splits)
  show thesis
  proof (cases "expired st c")
    case True
    with body c have "res = Expired n" "w' = w2" by auto
    with that(1) [OF rb _ _ _ _ tn True] c show thesis by auto
  next
    case False
    show thesis
    proof (cases "buff2 ! 0 \<noteq> 0x42 \<or> buff2 ! 1 \<noteq> 0x4D")
      case True
      with body False c have "resync st buff2 n2 w2 = Some (res, w')" by auto
      with that(3) [OF rb c(1) c(3) c(4) c(5) tn False True] show thesis by auto
    next
      case F2: False
      with body False c have "res = InTime buff2" "w' = w2" by auto
      with that(2) [OF rb _ _ _ _ tn False] F2 c show thesis by auto
    qed
  qed
qed


lemma turn_shape:
  assumes "turn buff n bs = (n2, buff2)"
  shows "length buff2 = length buff" and "n \<le> 1 \<Longrightarrow> length bs \<le> 1 \<Longrightarrow> drop 2 buff2 = drop 2 buff"
proof -
  show "length buff2 = length buff"
    using assms by (auto simp: turn_def store_length split: if_splits)
  assume "n \<le> 1" "length bs \<le> 1"
  then consider "bs = []" | b where "bs = [b]" "n = 0" | b where "bs = [b]" "n = 1"
    using length_le1_cases [of bs] by (cases "n = 0") auto
  then show "drop 2 buff2 = drop 2 buff"
    using assms by cases (auto simp: turn_def drop_update_cancel split: if_splits)
qed

lemma turn_exit:
  assumes "turn buff n bs = (n2, buff2)" "marker_inv buff n" "length bs \<le> 1"
    "buff2 ! 0 = 0x42" "buff2 ! 1 = 0x4D"
  shows "n = 1 \<and> bs = [0x4D]"
proof -
  from assms(2) have n: "n = 0 \<or> n = 1" and len: "0 < length buff" "Suc 0 < length buff"
    by (auto simp: marker_inv_def)
  from assms(3) consider "bs = []" | b where "bs = [b]"
    using length_le1_cases [of bs] by auto
  then show ?thesis
    using assms n len by cases (auto simp: turn_def marker_inv_def nth_list_update split: if_splits)
qed

lemma turn_again:
  assumes "turn buff n bs = (n2, buff2)" "marker_inv buff n" "length bs \<le> 1"
    "buff2 ! 0 \<noteq> 0x42 \<or> buff2 ! 1 \<noteq> 0x4D"
  shows "marker_inv buff2 n2" and "n2 = 1 \<Longrightarrow> (n = 1 \<and> bs = []) \<or> bs = [0x42]"
proof -
  from assms(2) have n: "n = 0 \<or> n = 1" and len: "0 < length buff" "Suc 0 < length buff"
    by (auto simp: marker_inv_def)
  from assms(3) consider "bs = []" | b where "bs = [b]"
    using length_le1_cases [of bs] by auto
  note cs = this
  from cs show "marker_inv buff2 n2"
    using assms n len by cases (auto simp: turn_def marker_inv_def nth_list_update split: if_splits)
  assume "n2 = 1"
  with cs show "(n = 1 \<and> bs = []) \<or> bs = [0x42]"
    using assms n len by cases (auto simp: turn_def marker_inv_def nth_list_update split: if_splits)
qed


lemma resync_spec:
  assumes "resync st buff n w = Some (res, w')" "marker_inv buff n"
  shows "\<exists>cs c bs. clock w = cs @ c # clock w' \<and> concat (uart w) = bs @ concat (uart w')
     \<and> pins w' = pins w \<and> nreads w < nreads w' \<and> (\<forall>x\<in>set cs. \<not> expired st x)
     \<and> (case res of
          Expired k \<Rightarrow> expired st c \<and> k \<le> 1
        | InTime b \<Rightarrow> \<not> expired st c \<and> length b = length buff \<and> b ! 0 = 0x42 \<and> b ! 1 = 0x4D
            \<and> drop 2 b = drop 2 buff
            \<and> ((n = 1 \<and> bs = [0x4D]) \<or> (\<exists>g. bs = g @ [0x42, 0x4D])))"
  using assms
proof (induction "length (clock w)" arbitrary: buff n w rule: less_induct)
  case less
  from less.prems(1) show ?case
  proof (cases rule: resync_cases)
    case (1 bs w1 c n2 buff2)
    from less.prems(2) have "n \<le> 1" by (simp add: marker_inv_def)
    with readBytes_SomeD [OF 1(1)] 1 show ?thesis
      by (intro exI [of _ "[]"] exI [of _ c] exI [of _ bs]) simp
  next
    case (2 bs w1 c n2 buff2)
    from readBytes_SomeD [OF 2(1)] have le: "length bs \<le> 1" by simp
    from turn_exit [OF 2(6) less.prems(2) le 2(8) 2(9)] have nb: "n = 1 \<and> bs = [0x4D]" .
    from turn_shape [OF 2(6)] le less.prems(2)
    have sh: "length buff2 = length buff" "drop 2 buff2 = drop 2 buff"
      by (auto simp: marker_inv_def)
    from readBytes_SomeD [OF 2(1)] 2 nb sh show ?thesis
      by (intro exI [of _ "[]"] exI [of _ c] exI [of _ bs]) simp
  next
    case (3 bs w1 c w2 n2 buff2)
    from readBytes_SomeD [OF 3(1)] have le: "length bs \<le> 1"
      and w1: "clock w1 = clock w" "pins w1 = pins w" "nreads w1 = Suc (nreads w)"
        "concat (uart w) = bs @ concat (uart w1)"
      by simp_all
    from turn_again [OF 3(6) less.prems(2) le 3(8)]
    have inv2: "marker_inv buff2 n2" and n2: "n2 = 1 \<Longrightarrow> (n = 1 \<and> bs = []) \<or> bs = [0x42]"
      by auto
    from turn_shape [OF 3(6)] le less.prems(2)
    have sh: "length buff2 = length buff" "drop 2 buff2 = drop 2 buff"
      by (auto simp: marker_inv_def)
    have "length (clock w2) < length (clock w)" using 3(2) w1 by simp
    from less.hyps [OF this 3(9) inv2] obtain cs c' bs' where
      ih: "clock w2 = cs @ c' # clock w'" "concat (uart w2) = bs' @ concat (uart w')"
        "pins w' = pins w2" "nreads w2 < nreads w'" "\<forall>x\<in>set cs. \<not> expired st x"
        "case res of
          Expired k \<Rightarrow> expired st c' \<and> k \<le> 1
        | InTime b \<Rightarrow> \<not> expired st c' \<and> length b = length buff2 \<and> b ! 0 = 0x42 \<and> b ! 1 = 0x4D
            \<and> drop 2 b = drop 2 buff2
            \<and> ((n2 = 1 \<and> bs' = [0x4D]) \<or> (\<exists>g. bs' = g @ [0x42, 0x4D]))"
      by blast
    have stream: "(n = 1 \<and> bs @ bs' = [0x4D]) \<or> (\<exists>g. bs @ bs' = g @ [0x42, 0x4D])"
      if "(n2 = 1 \<and> bs' = [0x4D]) \<or> (\<exists>g. bs' = g @ [0x42, 0x4D])"
      using that
    proof
      assume a: "n2 = 1 \<and> bs' = [0x4D]"
      with n2 have "(n = 1 \<and> bs = []) \<or> bs = [0x42]" by simp
      with a show ?thesis by auto
    next
      assume "\<exists>g. bs' = g @ [0x42, 0x4D]"
      then obtain g where "bs' = g @ [0x42, 0x4D]" ..
      then have "bs @ bs' = (bs @ g) @ [0x42, 0x4D]" by simp
      then show ?thesis by blast
    qed
    have res: "case res of
          Expired k \<Rightarrow> expired st c' \<and> k \<le> 1
        | InTime b \<Rightarrow> \<not> expired st c' \<and> length b = length buff \<and> b ! 0 = 0x42 \<and> b ! 1 = 0x4D
            \<and> drop 2 b = drop 2 buff
            \<and> ((n = 1 \<and> bs @ bs' = [0x4D]) \<or> (\<exists>g. bs @ bs' = g @ [0x42, 0x4D]))"
      using ih(6) sh stream by (cases res) auto
    have "clock w = (c # cs) @ c' # clock w'" using 3(2) w1 ih(1) by simp
    moreover have "concat (uart w) = (bs @ bs') @ concat (uart w')" using w1 3(3) ih(2) by simp
    moreover have "pins w' = pins w" using ih(3) 3(4) w1 by simp
    moreover have "nreads w < nreads w'" using ih(4) 3(5) w1 by simp
    moreover have "\<forall>x\<in>set (c # cs). \<not> expired st x" using ih(5) 3(7) by simp
    ultimately show ?thesis using res by blast
  qed
qed


lemma store_append:
  "n + length bs \<le> length buff \<Longrightarrow> store buff n bs = take n buff @ bs @ drop (n + length bs) buff"
proof (induction bs arbitrary: buff n)
  case Nil
  then show ?case by simp
next
  case (Cons b bs)
  then have n: "n < length buff" by simp
  from Cons.prems have "Suc n + length bs \<le> length (buff[n := b])" by simp
  from Cons.IH [OF this]
  have "store (buff[n := b]) (Suc n) bs =
      take (Suc n) (buff[n := b]) @ bs @ drop (Suc n + length bs) (buff[n := b])" .
  moreover have "take (Suc n) (buff[n := b]) = take n buff @ [b]"
    using n by (simp add: take_Suc_conv_app_nth)
  moreover have "drop (Suc n + length bs) (buff[n := b]) = drop (Suc n + length bs) buff"
    by simp
  ultimately show ?case by simp
qed

lemma fill_cases:
  assumes "fill st buff n w = Some (res, w')"
  obtains bs w1 c where
    "readBytes (32 - n) w = Some (bs, w1)" "clock w1 = c # clock w'" "uart w' = uart w1"
    "pins w' = pins w1" "nreads w' = nreads w1" "expired st c" "res = Expired n"
  | bs w1 c where
    "readBytes (32 - n) w = Some (bs, w1)" "clock w1 = c # clock w'" "uart w' = uart w1"
    "pins w' = pins w1" "nreads w' = nreads w1" "\<not> expired st c" "\<not> n + length bs < 32"
    "res = InTime (store buff n bs)"
  | bs w1 c w2 where
    "readBytes (32 - n) w = Some (bs, w1)" "clock w1 = c # clock w2" "uart w2 = uart w1"
    "pins w2 = pins w1" "nreads w2 = nreads w1" "\<not> expired st c" "n + length bs < 32"
    "fill st (store buff n bs) (n + length bs) w2 = Some (res, w')"
proof -
  from assms obtain bs w1 where rb: "readBytes (32 - n) w = Some (bs, w1)"
    by (subst (asm) fill.simps) (auto split: option.splits)
  from assms rb obtain t w2 where ml: "millis w1 = Some (t, w2)"
    by (subst (asm) fill.simps) (auto split: option.splits simp: Let_def)
  from millis_SomeD [OF ml] obtain c where
    c: "clock w1 = c # clock w2" "t = ucast c" "uart w2 = uart w1" "pins w2 = pins w1"
       "nreads w2 = nreads w1"
    by auto
  from assms rb ml have body:
    "(if READ_TIMEOUT \<le>s t - st then Some (Expired n, w2)
      else if n + length bs < 32 then fill st (store buff n bs) (n + length bs) w2
      else Some (InTime (store buff n bs), w2)) = Some (res, w')"
    by (subst (asm) fill.simps) (cases "bs = []"; auto simp: Let_def split: if_splits)
  show thesis
  proof (cases "expired st c")
    case True
    with body c have "res = Expired n" "w' = w2" by auto
    with that(1) [OF rb _ _ _ _ True] c show thesis by auto
  next
    case False
    show thesis
    proof (cases "n + length bs < 32")
      case True
      with body False c have "fill st (store buff n bs) (n + length bs) w2 = Some (res, w')"
        by auto
      with that(3) [OF rb c(1) c(3) c(4) c(5) False True] show thesis by auto
    next
      case F2: False
      with body False c have "res = InTime (store buff n bs)" "w' = w2" by auto
      with that(2) [OF rb _ _ _ _ False F2] c show thesis by auto
    qed
  qed
qed

lemma fill_spec:
  assumes "fill st buff n w = Some (res, w')" "length buff = 32" "n < 32"
  shows "\<exists>cs c bs. clock w = cs @ c # clock w' \<and> concat (uart w) = bs @ concat (uart w')
     \<and> pins w' = pins w \<and> nreads w < nreads w' \<and> (\<forall>x\<in>set cs. \<not> expired st x)
     \<and> (case res of
          Expired k \<Rightarrow> expired st c \<and> k < 32
        | InTime b \<Rightarrow> \<not> expired st c \<and> length bs = 32 - n \<and> b = take n buff @ bs)"
  using assms
proof (induction "length (clock w)" arbitrary: buff n w rule: less_induct)
  case less
  from less.prems(1) show ?case
  proof (cases rule: fill_cases)
    case (1 bs w1 c)
    from readBytes_SomeD [OF 1(1)] 1 less.prems(3) show ?thesis
      by (intro exI [of _ "[]"] exI [of _ c] exI [of _ bs]) simp
  next
    case (2 bs w1 c)
    from readBytes_SomeD [OF 2(1)] less.prems 2(7) have len: "length bs = 32 - n" by simp
    with less.prems have "store buff n bs = take n buff @ bs"
      by (simp add: store_append)
    with readBytes_SomeD [OF 2(1)] 2 len show ?thesis
      by (intro exI [of _ "[]"] exI [of _ c] exI [of _ bs]) simp
  next
    case (3 bs w1 c w2)
    from readBytes_SomeD [OF 3(1)]
    have w1: "clock w1 = clock w" "pins w1 = pins w" "nreads w1 = Suc (nreads w)"
        "concat (uart w) = bs @ concat (uart w1)"
      by simp_all
    have st: "store buff n bs = take n buff @ bs @ drop (n + length bs) buff"
      using less.prems 3(7) by (simp add: store_append)
    have "length (clock w2) < length (clock w)" using 3(2) w1 by simp
    from less.hyps [OF this 3(8) _ 3(7)] less.prems obtain cs c' bs' where
      ih: "clock w2 = cs @ c' # clock w'" "concat (uart w2) = bs' @ concat (uart w')"
        "pins w' = pins w2" "nreads w2 < nreads w'" "\<forall>x\<in>set cs. \<not> expired st x"
        "case res of
          Expired k \<Rightarrow> expired st c' \<and> k < 32
        | InTime b \<Rightarrow> \<not> expired st c' \<and> length bs' = 32 - (n + length bs)
            \<and> b = take (n + length bs) (store buff n bs) @ bs'"
      by (auto simp: store_length)
    have tk: "take (n + length bs) (store buff n bs) = take n buff @ bs"
      using less.prems 3(7) by (simp add: st)
    have res: "case res of
          Expired k \<Rightarrow> expired st c' \<and> k < 32
        | InTime b \<Rightarrow> \<not> expired st c' \<and> length (bs @ bs') = 32 - n \<and> b = take n buff @ bs @ bs'"
      using ih(6) tk 3(7) by (cases res) auto
    have "clock w = (c # cs) @ c' # clock w'" using 3(2) w1 ih(1) by simp
    moreover have "concat (uart w) = (bs @ bs') @ concat (uart w')" using w1 3(3) ih(2) by simp
    moreover have "pins w' = pins w" using ih(3) 3(4) w1 by simp
    moreover have "nreads w < nreads w'" using ih(4) 3(5) w1 by simp
    moreover have "\<forall>x\<in>set (c # cs). \<not> expired st x" using ih(5) 3(6) by simp
    ultimately show ?thesis using res by blast
  qed
qed


lemma take2_marker:
  assumes "2 \<le> length b" "b ! 0 = x" "b ! 1 = y"
  shows "take 2 b = [x, y]"
proof -
  from assms(1) obtain p q r where "b = p # q # r"
    by (cases b; cases "tl b") auto
  with assms show ?thesis by simp
qed

lemma read_frame_spec:
  assumes "read_frame st w = Some (res, w')"
  shows "\<exists>cs c bs. clock w = cs @ c # clock w' \<and> concat (uart w) = bs @ concat (uart w')
     \<and> pins w' = pins w \<and> nreads w < nreads w' \<and> (\<forall>x\<in>set cs. \<not> expired st x)
     \<and> (case res of
          Expired k \<Rightarrow> expired st c \<and> k < 32
        | InTime b \<Rightarrow> \<not> expired st c \<and> length b = 32 \<and> take 2 b = [0x42, 0x4D]
            \<and> (\<exists>g. bs = g @ b))"
proof -
  have inv: "marker_inv (replicate 32 0) 0" by (simp add: marker_inv_def)
  from assms obtain r1 w1 where r1: "resync st (replicate 32 0) 0 w = Some (r1, w1)"
    by (auto simp: read_frame_def split: option.splits)
  from resync_spec [OF r1 inv] obtain cs c bs where
    a: "clock w = cs @ c # clock w1" "concat (uart w) = bs @ concat (uart w1)"
      "pins w1 = pins w" "nreads w < nreads w1" "\<forall>x\<in>set cs. \<not> expired st x"
      "case r1 of
          Expired k \<Rightarrow> expired st c \<and> k \<le> 1
        | InTime b \<Rightarrow> \<not> expired st c \<and> length b = length (replicate 32 (0::byte))
            \<and> b ! 0 = 0x42 \<and> b ! 1 = 0x4D
            \<and> drop 2 b = drop 2 (replicate 32 0)
            \<and> (((0::nat) = 1 \<and> bs = [0x4D]) \<or> (\<exists>g. bs = g @ [0x42, 0x4D]))"
    by blast
  show ?thesis
  proof (cases r1)
    case (Expired k)
    with assms r1 have "res = Expired k" "w' = w1" by (auto simp: read_frame_def)
    with a Expired show ?thesis by auto
  next
    case (InTime b1)
    with assms r1 have f: "fill st b1 2 w1 = Some (res, w')" by (auto simp: read_frame_def)
    from a(6) InTime obtain g where
      b1: "\<not> expired st c" "length b1 = 32" "b1 ! 0 = 0x42" "b1 ! 1 = 0x4D"
        "bs = g @ [0x42, 0x4D]"
      by auto
    then have tk: "take 2 b1 = [0x42, 0x4D]" by (intro take2_marker) auto
    from fill_spec [OF f b1(2)] obtain cs' c' bs' where
      b: "clock w1 = cs' @ c' # clock w'" "concat (uart w1) = bs' @ concat (uart w')"
        "pins w' = pins w1" "nreads w1 < nreads w'" "\<forall>x\<in>set cs'. \<not> expired st x"
        "case res of
          Expired k \<Rightarrow> expired st c' \<and> k < 32
        | InTime b \<Rightarrow> \<not> expired st c' \<and> length bs' = 32 - 2 \<and> b = take 2 b1 @ bs'"
      by auto
    have res: "case res of
          Expired k \<Rightarrow> expired st c' \<and> k < 32
        | InTime b \<Rightarrow> \<not> expired st c' \<and> length b = 32 \<and> take 2 b = [0x42, 0x4D]
            \<and> (\<exists>g. bs @ bs' = g @ b)"
      using b(6) tk b1(5) by (cases res) auto
    have "clock w = (cs @ c # cs') @ c' # clock w'" using a(1) b(1) by simp
    moreover have "concat (uart w) = (bs @ bs') @ concat (uart w')" using a(2) b(2) by simp
    moreover have "pins w' = pins w" using a(3) b(3) by simp
    moreover have "nreads w < nreads w'" using a(4) b(4) by simp
    moreover have "\<forall>x\<in>set (cs @ c # cs'). \<not> expired st x" using a(5) b(5) b1(1) by auto
    ultimately show ?thesis using res by blast
  qed
qed


lemma unat_byte_less: "unat (b :: byte) < 256"
  using unsigned_less [of b, where ?'a = nat] by simp

lemma unat_ucast_byte: "unat (ucast (b :: byte) :: uint16) = unat b"
proof -
  have "(ucast b :: uint16) = word_of_nat (unat b)" by simp
  then have "unat (ucast b :: uint16) = unat b mod 65536" by (simp only: unat_of_nat) simp
  then show ?thesis using unat_byte_less [of b] by simp
qed

lemma unat_be16: "unat (be16 hi lo) = 256 * unat hi + unat lo"
proof -
  have "be16 hi lo = push_bit 8 (ucast hi) + ucast lo"
    unfolding be16_def
    by (rule disjunctive_add [symmetric])
       (auto simp: bit_push_bit_iff bit_ucast_iff dest: bit_imp_le_length)
  also have "\<dots> = word_of_nat (256 * unat hi + unat lo)"
    by (simp add: push_bit_eq_mult)
  finally have "unat (be16 hi lo) = (256 * unat hi + unat lo) mod 65536"
    by (simp only: unat_of_nat) simp
  then show ?thesis using unat_byte_less [of hi] unat_byte_less [of lo] by simp
qed

lemma unat_crc_loop:
  "unat (crc_loop buff i s) = (unat s + (\<Sum>j = i..<30. unat (buff ! j))) mod 65536"
proof (induction buff i s rule: crc_loop.induct)
  case (1 buff i crcSum)
  show ?case
  proof (cases "i < 30")
    case True
    have "unat (crc_loop buff i crcSum) = unat (crc_loop buff (Suc i) (crcSum + ucast (buff ! i)))"
      using True by (subst crc_loop.simps) simp
    also have "\<dots> = (unat (crcSum + ucast (buff ! i)) + (\<Sum>j = Suc i..<30. unat (buff ! j))) mod 65536"
      using 1 True by simp
    also have "unat (crcSum + ucast (buff ! i)) = (unat crcSum + unat (buff ! i)) mod 65536"
      by (simp add: unat_word_ariths unat_ucast_byte)
    also have "((unat crcSum + unat (buff ! i)) mod 65536 + (\<Sum>j = Suc i..<30. unat (buff ! j))) mod 65536
        = (unat crcSum + (unat (buff ! i) + (\<Sum>j = Suc i..<30. unat (buff ! j)))) mod 65536"
      by (simp add: mod_add_left_eq add.assoc)
    also have "unat (buff ! i) + (\<Sum>j = Suc i..<30. unat (buff ! j)) = (\<Sum>j = i..<30. unat (buff ! j))"
      using True by (simp add: sum.atLeast_Suc_lessThan)
    finally show ?thesis .
  next
    case False
    have "unat crcSum < 65536" using unsigned_less [of crcSum, where ?'a = nat] by simp
    with False show ?thesis by (subst crc_loop.simps) simp
  qed
qed

lemma validate_eq:
  "validate buff d = (if frame_ok buff then (0, decode buff d) else (2, d))"
proof -
  have crc: "crc_loop buff 0 0 = be16 (buff ! 30) (buff ! 31)
      \<longleftrightarrow> (\<Sum>j = 0..<30. unat (buff ! j)) mod 2 ^ 16 = 256 * unat (buff ! 30) + unat (buff ! 31)"
    by (simp add: word_unat_eq_iff unat_crc_loop unat_be16)
  have len: "be16 (buff ! 2) (buff ! 3) = 28 \<longleftrightarrow> 256 * unat (buff ! 2) + unat (buff ! 3) = 28"
    by (simp add: word_unat_eq_iff unat_be16)
  show ?thesis
    by (simp only: validate_def Let_def frame_ok_def crc len) auto
qed


lemma getDataInternal_cases:
  assumes "getDataInternal st d w = Some (r, d', w')"
  obtains k where "read_frame st w = Some (Expired k, w')" "r = 1" "d' = d"
  | buff where "read_frame st w = Some (InTime buff, w')" "\<not> frame_ok buff" "r = 2" "d' = d"
  | buff where "read_frame st w = Some (InTime buff, w')" "frame_ok buff" "r = 0"
      "d' = decode buff d"
  using assms
  by (auto simp: getDataInternal_def validate_eq split: option.splits window.splits if_splits)

lemma getDataInternal_codes:
  assumes "getDataInternal st d w = Some (r, d', w')"
  shows "r = 0 \<or> r = 1 \<or> r = 2"
  using assms by (cases rule: getDataInternal_cases) auto

lemma tries_unfold:
  "tries i st d w =
    (if i < 3 then
       (case getDataInternal st d w of
           None \<Rightarrow> None
         | Some (r, d1, w1) \<Rightarrow>
             if r = 0 then Some (1, d1, w1)
             else if r = 1 then Some (0, d1, w1)
             else (case millis w1 of
                   None \<Rightarrow> None
                 | Some (t, w2) \<Rightarrow> tries (Suc i) t d1 w2))
     else Some (0, d, w))"
proof (cases "getDataInternal st d w")
  case None
  then show ?thesis by (subst tries.simps) (simp add: TRIES_NUM_def)
next
  case (Some a)
  obtain r d1 w1 where a: "a = (r, d1, w1)" by (cases a) auto
  from getDataInternal_codes [of st d w r d1 w1] Some a have "r = 0 \<or> r = 1 \<or> r = 2" by simp
  with Some a show ?thesis by (subst tries.simps) (auto simp: TRIES_NUM_def)
qed

lemma tries_result:
  assumes "tries i st d w = Some (r, d', w')"
  shows "(r = 0 \<and> d' = d) \<or> (r = 1 \<and> (\<exists>buff. length buff = 32 \<and> frame_ok buff \<and> d' = decode buff d))"
  using assms
proof (induction "3 - i" arbitrary: i st d w)
  case 0
  then show ?case by (subst (asm) tries_unfold) simp
next
  case (Suc k)
  then have i: "i < 3" by simp
  from Suc.prems i obtain r1 d1 w1 where g: "getDataInternal st d w = Some (r1, d1, w1)"
    by (subst (asm) tries_unfold) (auto split: option.splits)
  from g show ?case
  proof (cases rule: getDataInternal_cases)
    case 1
    with Suc.prems i g show ?thesis by (subst (asm) tries_unfold) simp
  next
    case (2 buff)
    with Suc.prems i g obtain t w2 where "tries (Suc i) t d w2 = Some (r, d', w')"
      by (subst (asm) tries_unfold) (auto split: option.splits)
    moreover have "k = 3 - Suc i" using Suc.hyps(2) by simp
    ultimately show ?thesis using Suc.hyps(1) by blast
  next
    case (3 buff)
    from read_frame_spec [OF 3(1)] have "length buff = 32" by auto
    with 3 Suc.prems i g show ?thesis by (subst (asm) tries_unfold) auto
  qed
qed

lemma getDataInternal_reads:
  assumes "getDataInternal st d w = Some (r, d', w')"
  shows "nreads w < nreads w'"
  using assms
  by (cases rule: getDataInternal_cases) (use read_frame_spec in blast)+

lemma tries_reads:
  assumes "tries i st d w = Some (r, d', w')"
  shows "nreads w \<le> nreads w' \<and> (i < 3 \<longrightarrow> nreads w < nreads w')"
  using assms
proof (induction "3 - i" arbitrary: i st d w)
  case 0
  then show ?case by (subst (asm) tries_unfold) simp
next
  case (Suc k)
  then have i: "i < 3" by simp
  from Suc.prems i obtain r1 d1 w1 where g: "getDataInternal st d w = Some (r1, d1, w1)"
    by (subst (asm) tries_unfold) (auto split: option.splits)
  from getDataInternal_reads [OF g] have n1: "nreads w < nreads w1" .
  show ?case
  proof (cases "r1 = 0 \<or> r1 = 1")
    case True
    with Suc.prems i g have "w' = w1" by (subst (asm) tries_unfold) auto
    with n1 show ?thesis by simp
  next
    case False
    with Suc.prems i g obtain t w2 where m: "millis w1 = Some (t, w2)"
      and t: "tries (Suc i) t d1 w2 = Some (r, d', w')"
      by (subst (asm) tries_unfold) (auto split: option.splits)
    have "k = 3 - Suc i" using Suc.hyps(2) by simp
    from Suc.hyps(1) [OF this t] have "nreads w2 \<le> nreads w'" by simp
    with millis_SomeD [OF m] n1 show ?thesis by simp
  qed
qed

section \<open>The preheat value\<close>

lemma sint_ucast_clock: "sint (ucast (c :: 32 word) :: int64) = uint c"
proof -
  have "uint c < 2 ^ 32" using unsigned_less [of c, where ?'a = int] by simp
  then have "uint c < 2 ^ 63" by simp
  moreover have "- (2 ^ 63) \<le> uint c" by (rule order_trans [OF _ uint_ge_0]) simp
  ultimately have "signed_take_bit 63 (uint c) = uint c"
    by (rule signed_take_bit_int_eq_self [rotated])
  then show ?thesis by (simp add: signed_ucast_eq)
qed

lemma sint_diff_small:
  fixes a b :: int64
  assumes "- (2 ^ 62) \<le> sint a" "sint a < 2 ^ 62" "- (2 ^ 62) \<le> sint b" "sint b < 2 ^ 62"
  shows "sint (a - b) = sint a - sint b"
proof -
  have "signed_take_bit 63 (sint a - sint b) = sint a - sint b"
    using assms by (intro signed_take_bit_int_eq_self) auto
  then show ?thesis by (simp add: sint_word_diff)
qed

lemma sdiv_1000_bounds:
  assumes "- (2 ^ 33) \<le> (k::int)" "k \<le> 0"
  shows "- (2 ^ 31) \<le> k sdiv 1000" "k sdiv 1000 \<le> 0"
proof -
  have "k sdiv 1000 = - ((- k) div 1000)"
    using assms by (auto simp: signed_divide_int_def sgn_if)
  moreover have "0 \<le> (- k) div 1000" using assms by simp
  moreover have "(- k) div 1000 \<le> 2 ^ 31" using assms by simp
  ultimately show "- (2 ^ 31) \<le> k sdiv 1000" "k sdiv 1000 \<le> 0" by auto
qed

lemma sint_scast_small:
  assumes "- (2 ^ 31) \<le> (q::int)" "q \<le> 0"
  shows "sint (scast (word_of_int q :: int64) :: 32 word) = q"
proof -
  have "signed_take_bit 63 q = q" using assms by (intro signed_take_bit_int_eq_self) auto
  then have a: "sint (word_of_int q :: int64) = q" by (simp add: sint_sbintrunc')
  have "(scast (word_of_int q :: int64) :: 32 word) = word_of_int (sint (word_of_int q :: int64))"
    by simp
  then have "sint (scast (word_of_int q :: int64) :: 32 word) = signed_take_bit 31 q"
    by (simp only: a sint_sbintrunc') simp
  moreover have "signed_take_bit 31 q = q" using assms by (intro signed_take_bit_int_eq_self) auto
  ultimately show ?thesis by simp
qed

lemma clock_value_sint: "clock_value t \<Longrightarrow> 0 \<le> sint t \<and> sint t < 2 ^ 32"
  by (simp add: clock_value_def word_sle_eq word_sless_alt)

lemma preheat_left_nonpos:
  assumes "clock_value wk" "t = ucast (c :: 32 word)" "t - wk \<le>s PREHEAT_TIME"
  shows "preheat_left (t - wk) \<le> 0"
proof -
  obtain u where u: "u = uint c" "0 \<le> u" "u < 2 ^ 32"
    using unsigned_less [of c, where ?'a = int] by simp
  obtain v where v: "v = sint wk" "0 \<le> v" "v < 2 ^ 32"
    using clock_value_sint [OF assms(1)] by simp
  have st: "sint t = u" by (simp add: assms(2) sint_ucast_clock u)
  have sv: "sint wk = v" by (simp add: v)
  have d: "sint (t - wk) = u - v"
    using u(2,3) v(2,3) st sv by (subst sint_diff_small) auto
  from assms(3) have le: "u - v \<le> 30000"
    by (simp add: word_sle_eq PREHEAT_TIME_def d)
  have p: "sint PREHEAT_TIME = 30000" by (simp add: PREHEAT_TIME_def)
  have e: "sint (t - wk - PREHEAT_TIME) = u - v - 30000"
    using u(2,3) v(2,3) d p by (subst sint_diff_small) auto
  have k: "- (2 ^ 33) \<le> u - v - 30000" "u - v - 30000 \<le> 0"
    using u(2,3) v(2,3) le by auto
  from sdiv_1000_bounds [OF k]
  have q: "- (2 ^ 31) \<le> (u - v - 30000) sdiv 1000" "(u - v - 30000) sdiv 1000 \<le> 0" .
  have "preheat_left (t - wk) = (u - v - 30000) sdiv 1000"
    unfolding preheat_left_def e by (rule sint_scast_small [OF q])
  with q show ?thesis by simp
qed

section \<open>Wake time, preheat and sleep\<close>

lemma millis_clock_value:
  assumes "millis w = Some (t, w1)"
  shows "clock_value t"
proof -
  from millis_SomeD(1) [OF assms] obtain c :: "32 word" where t: "t = ucast c" by auto
  obtain u where u: "u = uint c" "0 \<le> u" "u < 2 ^ 32"
    using unsigned_less [of c, where ?'a = int] by simp
  have "sint t = u" by (simp add: t sint_ucast_clock u)
  with u(2,3) show ?thesis by (simp add: clock_value_def word_sle_eq word_sless_alt)
qed

lemma init_clock_value:
  assumes "init sleepPin sleep d w = Some (d', w')" "\<not> m_isSleeping d'"
  shows "clock_value (m_wakeUpTime d')"
  using assms
  by (auto simp: init_def Let_def split: if_splits option.splits dest: millis_clock_value)

lemma WakeUp_clock_value:
  assumes "WakeUp d w = Some (b, d', w')" "clock_value (m_wakeUpTime d) \<or> m_isSleeping d"
    "0 \<le>s m_sleepPin d"
  shows "clock_value (m_wakeUpTime d') \<and> \<not> m_isSleeping d'"
  using assms
  by (auto simp: WakeUp_def split: if_splits option.splits dest: millis_clock_value)

lemma getData_during_preheat:
  assumes "m_uart d" "\<not> m_isSleeping d" "millis w = Some (t, w1)"
    "t - m_wakeUpTime d \<le>s PREHEAT_TIME"
  shows "getData d w = Some (preheat_left (t - m_wakeUpTime d), d, w1)"
    and "nreads w1 = nreads w" and "uart w1 = uart w"
  using assms millis_SomeD [OF assms(3)] by (simp_all add: getData_def Let_def)

lemma getData_preheat_nonpositive:
  assumes "m_uart d" "\<not> m_isSleeping d" "millis w = Some (t, w1)"
    "t - m_wakeUpTime d \<le>s PREHEAT_TIME" "clock_value (m_wakeUpTime d)"
  shows "\<exists>r. getData d w = Some (r, d, w1) \<and> r \<le> 0"
proof -
  from millis_SomeD(1) [OF assms(3)] obtain c :: "32 word" where t: "t = ucast c" by auto
  from preheat_left_nonpos [OF assms(5) t assms(4)] getData_during_preheat(1) [OF assms(1-4)]
  show ?thesis by simp
qed

lemma drain_sleeping:
  assumes "m_isSleeping d"
  shows "drain i d w = Some (d, w)"
  using assms
proof (induction "2 - i" arbitrary: i)
  case 0
  then show ?case by (subst drain.simps) simp
next
  case (Suc k)
  then have "k = 2 - Suc i" by simp
  from Suc.hyps(1) [OF this Suc.prems] Suc.prems show ?case
    by (subst drain.simps) (simp add: getData_def)
qed

lemma Sleep_with_pin:
  assumes "0 \<le>s m_sleepPin d"
  shows "Sleep d w = Some (True, d\<lparr>m_isReady := False, m_isSleeping := True\<rparr>,
    digitalWrite_LOW (m_sleepPin d) w)"
  using assms by (simp add: Sleep_def drain_sleeping)

lemma upt_12: "[0..<12] = [0, 1, 2, 3, 4, 5, 6, 7, 8, 9, 10, 11]"
  by code_simp

lemma measurement_decode:
  assumes "length buff = 32"
  shows "map unat (measurement (decode buff d)) =
    map (\<lambda>k. 256 * unat (drop 4 buff ! (2 * k)) + unat (drop 4 buff ! (2 * k + 1))) [0..<12]"
  using assms by (simp add: upt_12 measurement_def decode_def unat_be16)

section \<open>The claims\<close>

text \<open>
  Claim C1 (fails on the code).  The claim: after any garbage, the first loop locks onto
  the marker of a following valid frame, because a byte that breaks a candidate marker
  becomes the new candidate when it is \<open>0x42\<close> itself.  The code sets \<open>n = 0\<close> instead and
  drops that byte.  Evaluated here: the valid frame \<open>frameA\<close> alone is read and accepted
  (result 0); the same frame behind the single garbage byte \<open>0x42\<close>, all 33 bytes
  delivered at the start time, is not found: the attempt eats the whole stream and ends
  with 1 (timed out) when the clock reaches 800 ms.
\<close>

theorem resync_misses_frame_after_0x42:
  "getDataInternal 0 driver0 (sensor_world [0, 0, 0] [frameA])
     = Some (0, decode frameA driver0, \<lparr>clock = [], uart = [], nreads = 3, pins = []\<rparr>)
   \<and> getDataInternal 0 driver0 (sensor_world (replicate 33 0 @ [800]) [0x42 # frameA, []])
     = Some (1, driver0, \<lparr>clock = [], uart = [], nreads = 34, pins = []\<rparr>)"
  by code_simp

theorem resync_misses_frame_after_0x42_witness:
  "\<exists>d' w'. getDataInternal 0 driver0 (sensor_world (replicate 33 0 @ [800]) [0x42 # frameA, []])
     = Some (1, d', w') \<and> uart w' = []"
  using resync_misses_frame_after_0x42 by simp

text \<open>
  Claim C2.  For a driver that is awake, past its preheat and has a transport, \<open>getData\<close>
  makes at most three attempts of \<open>getDataInternal\<close>.  A result 0 (success) of an attempt
  ends the call with 1 at once, a result 1 (timed out) ends it with 0 at once, a result 2
  (bad data) reads the clock, and the next attempt gets that reading as its start time;
  after a third bad attempt the clock is read once more and the call ends with 0.  The
  first attempt starts at the clock value read on entry.
\<close>

theorem getData_retry_policy:
  assumes "m_uart d" "\<not> m_isSleeping d" "millis w = Some (t0, v0)"
    "\<not> t0 - m_wakeUpTime d \<le>s PREHEAT_TIME"
  shows "getData d w =
    (case getDataInternal t0 d v0 of
        None \<Rightarrow> None
      | Some (r1, d1, w1) \<Rightarrow>
          if r1 = 0 then Some (1, d1, w1)
          else if r1 = 1 then Some (0, d1, w1)
          else (case millis w1 of
                None \<Rightarrow> None
              | Some (t1, v1) \<Rightarrow>
                  (case getDataInternal t1 d1 v1 of
                      None \<Rightarrow> None
                    | Some (r2, d2, w2) \<Rightarrow>
                        if r2 = 0 then Some (1, d2, w2)
                        else if r2 = 1 then Some (0, d2, w2)
                        else (case millis w2 of
                              None \<Rightarrow> None
                            | Some (t2, v2) \<Rightarrow>
                                (case getDataInternal t2 d2 v2 of
                                    None \<Rightarrow> None
                                  | Some (r3, d3, w3) \<Rightarrow>
                                      if r3 = 0 then Some (1, d3, w3)
                                      else if r3 = 1 then Some (0, d3, w3)
                                      else (case millis w3 of
                                            None \<Rightarrow> None
                                          | Some (t3, v3) \<Rightarrow> Some (0, d3, v3)))))))"
proof -
  have t3: "tries (Suc (Suc (Suc 0))) t dd ww = Some (0, dd, ww)" for t dd ww
    by (subst tries_unfold) simp
  have t2: "tries (Suc (Suc 0)) t dd ww =
      (case getDataInternal t dd ww of
          None \<Rightarrow> None
        | Some (r, d1, w1) \<Rightarrow>
            if r = 0 then Some (1, d1, w1)
            else if r = 1 then Some (0, d1, w1)
            else (case millis w1 of None \<Rightarrow> None | Some (t', w2) \<Rightarrow> Some (0, d1, w2)))" for t dd ww
    by (subst tries_unfold) (auto simp: t3 split: option.splits)
  have t1: "tries (Suc 0) t dd ww =
      (case getDataInternal t dd ww of
          None \<Rightarrow> None
        | Some (r, d1, w1) \<Rightarrow>
            if r = 0 then Some (1, d1, w1)
            else if r = 1 then Some (0, d1, w1)
            else (case millis w1 of None \<Rightarrow> None | Some (t', w2) \<Rightarrow> tries (Suc (Suc 0)) t' d1 w2))" for t dd ww
    by (subst tries_unfold) simp
  have t0: "tries 0 t dd ww =
      (case getDataInternal t dd ww of
          None \<Rightarrow> None
        | Some (r, d1, w1) \<Rightarrow>
            if r = 0 then Some (1, d1, w1)
            else if r = 1 then Some (0, d1, w1)
            else (case millis w1 of None \<Rightarrow> None | Some (t', w2) \<Rightarrow> tries (Suc 0) t' d1 w2))" for t dd ww
    by (subst tries_unfold) simp
  have "getData d w = tries 0 t0 d v0"
    using assms by (simp add: getData_def Let_def)
  then show ?thesis
    by (simp only: t0 t1 t2)
qed



theorem getData_retry_policy_witness:
  "m_uart driver0 \<and> \<not> m_isSleeping driver0
   \<and> millis (sensor_world (replicate 13 30001) [frameB, frameB, frameB])
       = Some (30001, sensor_world (replicate 12 30001) [frameB, frameB, frameB])
   \<and> \<not> 30001 - m_wakeUpTime driver0 \<le>s PREHEAT_TIME
   \<and> getData driver0 (sensor_world (replicate 13 30001) [frameB, frameB, frameB])
       = Some (0, driver0, \<lparr>clock = [], uart = [], nreads = 9, pins = []\<rparr>)"
proof -
  have h1: "m_uart driver0" by (simp add: driver0_def)
  have h2: "\<not> m_isSleeping driver0" by (simp add: driver0_def)
  have h3: "millis (sensor_world (replicate 13 30001) [frameB, frameB, frameB])
       = Some (30001, sensor_world (replicate 12 30001) [frameB, frameB, frameB])"
    by code_simp
  have h4: "\<not> 30001 - m_wakeUpTime driver0 \<le>s PREHEAT_TIME" by code_simp
  note getData_retry_policy [OF h1 h2 h3 h4]
  also have "(case getDataInternal 30001 driver0 (sensor_world (replicate 12 30001) [frameB, frameB, frameB]) of
        None \<Rightarrow> None
      | Some (r1, d1, w1) \<Rightarrow>
          if r1 = 0 then Some (1, d1, w1)
          else if r1 = 1 then Some (0, d1, w1)
          else (case millis w1 of
                None \<Rightarrow> None
              | Some (t1, v1) \<Rightarrow>
                  (case getDataInternal t1 d1 v1 of
                      None \<Rightarrow> None
                    | Some (r2, d2, w2) \<Rightarrow>
                        if r2 = 0 then Some (1, d2, w2)
                        else if r2 = 1 then Some (0, d2, w2)
                        else (case millis w2 of
                              None \<Rightarrow> None
                            | Some (t2, v2) \<Rightarrow>
                                (case getDataInternal t2 d2 v2 of
                                    None \<Rightarrow> None
                                  | Some (r3, d3, w3) \<Rightarrow>
                                      if r3 = 0 then Some (1, d3, w3)
                                      else if r3 = 1 then Some (0, d3, w3)
                                      else (case millis w3 of
                                            None \<Rightarrow> None
                                          | Some (t3, v3) \<Rightarrow> Some (0, d3, v3)))))))
     = Some (0::int, driver0, \<lparr>clock = [], uart = [], nreads = 9, pins = []\<rparr>)"
    by code_simp
  finally show ?thesis using h1 h2 h3 h4 by simp
qed

text \<open>
  Claim C3 (amended).  The claim has result 1 (timed out) returned only when fewer than 32
  frame bytes were assembled.  The code tests the clock after every read, also after the
  read that fills the buffer: with the valid frame \<open>frameA\<close> and the clock readings 0, 0,
  800 the last read completes the 32 bytes and the attempt still returns 1 (last theorem
  of this claim, with the passes of the loops traced).  What holds: the attempt returns 1
  exactly when it ends on a clock reading that is 800 ms or more past the start time it
  was given, every earlier reading of the attempt being inside the window; the buffer
  held fewer than 32 frame bytes when the read before that late reading began, and that
  read may have completed it.  When the attempt does not return 1, the bytes it took from
  the transport end with a complete block of 32 bytes that starts with the marker
  \<open>0x42 0x4D\<close>; that block is the buffer, and the result is 2 (bad data) exactly when it
  fails the integrity checks and 0 exactly when it passes them.  Unless the result is 0,
  the driver object is unchanged.
\<close>

theorem getDataInternal_classification:
  assumes "getDataInternal st d w = Some (r, d', w')"
  shows "\<exists>cs c bs. clock w = cs @ c # clock w' \<and> concat (uart w) = bs @ concat (uart w')
     \<and> (\<forall>x\<in>set cs. \<not> expired st x)
     \<and> (r = 1 \<longleftrightarrow> expired st c)
     \<and> (r = 1 \<longrightarrow> (\<exists>k. read_frame st w = Some (Expired k, w') \<and> k < 32))
     \<and> (r \<noteq> 1 \<longrightarrow> (\<exists>g b. read_frame st w = Some (InTime b, w') \<and> bs = g @ b
            \<and> length b = 32 \<and> take 2 b = [0x42, 0x4D]
            \<and> (r = 2 \<longleftrightarrow> \<not> frame_ok b) \<and> (r = 0 \<longleftrightarrow> frame_ok b)))
     \<and> (r \<noteq> 0 \<longrightarrow> d' = d)"
  using assms
proof (cases rule: getDataInternal_cases)
  case 1
  from read_frame_spec [OF 1(1)] 1 show ?thesis by auto
next
  case (2 buff)
  from read_frame_spec [OF 2(1)] obtain cs c bs g where
    "clock w = cs @ c # clock w'" "concat (uart w) = bs @ concat (uart w')"
    "\<forall>x\<in>set cs. \<not> expired st x" "\<not> expired st c" "length buff = 32"
    "take 2 buff = [0x42, 0x4D]" "bs = g @ buff"
    by auto
  with 2 show ?thesis by (intro exI [of _ cs] exI [of _ c] exI [of _ bs]) auto
next
  case (3 buff)
  from read_frame_spec [OF 3(1)] obtain cs c bs g where
    "clock w = cs @ c # clock w'" "concat (uart w) = bs @ concat (uart w')"
    "\<forall>x\<in>set cs. \<not> expired st x" "\<not> expired st c" "length buff = 32"
    "take 2 buff = [0x42, 0x4D]" "bs = g @ buff"
    by auto
  with 3 show ?thesis by (intro exI [of _ cs] exI [of _ c] exI [of _ bs]) auto
qed

theorem getDataInternal_classification_witness:
  "getDataInternal 0 driver0 (sensor_world [0, 0, 0] [frameB])
     = Some (2, driver0, \<lparr>clock = [], uart = [], nreads = 3, pins = []\<rparr>)
   \<and> (\<exists>b. length b = 32 \<and> take 2 b = [0x42, 0x4D] \<and> \<not> frame_ok b)"
proof -
  have h: "getDataInternal 0 driver0 (sensor_world [0, 0, 0] [frameB])
     = Some (2, driver0, \<lparr>clock = [], uart = [], nreads = 3, pins = []\<rparr>)"
    by code_simp
  from getDataInternal_classification [OF h] have
    "\<exists>b. length b = 32 \<and> take 2 b = [0x42, 0x4D] \<and> \<not> frame_ok b"
    by auto
  with h show ?thesis by simp
qed

theorem timed_out_with_complete_frame_counterexample:
  "resync 0 (replicate 32 0) 0 (sensor_world [0, 0, 800] [frameA])
     = Some (InTime (0x42 # 0x4D # replicate 30 0),
         \<lparr>clock = [800], uart = [drop 2 frameA], nreads = 2, pins = []\<rparr>)
   \<and> readBytes (32 - 2) \<lparr>clock = [800], uart = [drop 2 frameA], nreads = 2, pins = []\<rparr>
     = Some (drop 2 frameA, \<lparr>clock = [800], uart = [], nreads = 3, pins = []\<rparr>)
   \<and> store (0x42 # 0x4D # replicate 30 0) 2 (drop 2 frameA) = frameA
   \<and> 2 + length (drop 2 frameA) = 32
   \<and> validate frameA driver0 = (0, decode frameA driver0)
   \<and> getDataInternal 0 driver0 (sensor_world [0, 0, 800] [frameA])
     = Some (1, driver0, \<lparr>clock = [], uart = [], nreads = 3, pins = []\<rparr>)
   \<and> getDataInternal 0 driver0 (sensor_world [0, 0, 799] [frameA])
     = Some (0, decode frameA driver0, \<lparr>clock = [], uart = [], nreads = 3, pins = []\<rparr>)"
  by code_simp

text \<open>
  Claim C4 (fails on the code).  The claim: during the whole preheat period \<open>getData\<close>
  makes no read and returns a negative number of seconds, distinct from 0 and 1.  No read
  is made, but \<open>(timeFromWakeUp - PREHEAT_TIME) / 1000\<close> truncates towards zero.
  Evaluated here for a driver awake since clock value 0: at 2000 ms the result is -28; at
  29500 ms and at 30000 ms, still in preheat, the result is 0, the value the header
  documents as error.  The transport is untouched in all three calls.
\<close>

theorem getData_zero_in_last_preheat_second:
  "getData driver0 (sensor_world [2000] [frameA]) = Some (- 28, driver0, sensor_world [] [frameA])
   \<and> getData driver0 (sensor_world [29500] [frameA]) = Some (0, driver0, sensor_world [] [frameA])
   \<and> getData driver0 (sensor_world [30000] [frameA]) = Some (0, driver0, sensor_world [] [frameA])"
  by code_simp

theorem getData_zero_in_last_preheat_second_witness:
  "\<exists>d' w'. getData driver0 (sensor_world [29500] [frameA]) = Some (0, d', w') \<and> nreads w' = 0"
  using getData_zero_in_last_preheat_second by (simp add: sensor_world_def)



text \<open>
  Claim C6.  Whenever \<open>getData\<close> returns anything but 1, the driver object, and with it
  each of the twelve measurement fields, is what it was before the call.  A call that
  changes the object at all has returned 1, and the new object is the old one with the
  twelve fields decoded from one 32-byte buffer that passed both the checksum and the
  length check: the fields change together or not at all.
\<close>

theorem getData_failure_keeps_measurement:
  assumes "getData d w = Some (r, d', w')"
  shows "(r \<noteq> 1 \<longrightarrow> d' = d \<and> measurement d' = measurement d)
    \<and> (d' = d \<or> (r = 1 \<and> (\<exists>buff. length buff = 32 \<and> frame_ok buff \<and> d' = decode buff d)))"
proof (cases "\<not> m_uart d \<or> m_isSleeping d")
  case True
  with assms show ?thesis by (auto simp: getData_def)
next
  case False
  with assms obtain t w1 where m: "millis w = Some (t, w1)"
    by (auto simp: getData_def split: option.splits)
  show ?thesis
  proof (cases "t - m_wakeUpTime d \<le>s PREHEAT_TIME")
    case True
    with assms False m show ?thesis by (auto simp: getData_def Let_def)
  next
    case F: False
    with assms False m have "tries 0 t d w1 = Some (r, d', w')"
      by (auto simp: getData_def Let_def)
    from tries_result [OF this] show ?thesis by auto
  qed
qed

theorem getData_failure_keeps_measurement_witness:
  "getData driver0 (sensor_world (replicate 13 30001) [frameB, frameB, frameB])
       = Some (0, driver0, \<lparr>clock = [], uart = [], nreads = 9, pins = []\<rparr>)
   \<and> measurement driver0 = [0, 0, 0, 0, 0, 0, 0, 0, 0, 0, 0, 0]"
proof -
  have h: "getData driver0 (sensor_world (replicate 13 30001) [frameB, frameB, frameB])
       = Some (0, driver0, \<lparr>clock = [], uart = [], nreads = 9, pins = []\<rparr>)"
    by code_simp
  have m: "measurement driver0 = [0, 0, 0, 0, 0, 0, 0, 0, 0, 0, 0, 0]" by code_simp
  from getData_failure_keeps_measurement [OF h] h m show ?thesis by simp
qed

text \<open>
  Claim C7.  When an attempt returns 0, the twelve measurement fields, in the order of
  their declaration, are the big-endian 16-bit numbers at the offsets 0, 2, 4, ..., 22 of
  the bytes that follow the 4-byte header of the buffer: field number \<open>k\<close> (from 0) is
  \<open>256 * payload[2k] + payload[2k+1]\<close>.  The other members of the driver object keep
  their values; the decoding itself tests nothing.
\<close>

theorem decode_big_endian:
  assumes "getDataInternal st d w = Some (0, d', w')"
  shows "\<exists>buff. read_frame st w = Some (InTime buff, w') \<and> length buff = 32
    \<and> map unat (measurement d') =
        map (\<lambda>k. 256 * unat (drop 4 buff ! (2 * k)) + unat (drop 4 buff ! (2 * k + 1))) [0..<12]
    \<and> m_isReady d' = m_isReady d \<and> m_isSleeping d' = m_isSleeping d \<and> m_uart d' = m_uart d
    \<and> m_wakeUpTime d' = m_wakeUpTime d \<and> m_sleepPin d' = m_sleepPin d"
  using assms
proof (cases rule: getDataInternal_cases)
  case (3 buff)
  from read_frame_spec [OF 3(1)] have len: "length buff = 32" by auto
  from 3 len measurement_decode [OF len, of d] show ?thesis
    by (intro exI [of _ buff]) (simp add: decode_def)
qed simp_all

theorem decode_big_endian_witness:
  "getDataInternal 0 driver0 (sensor_world [0, 0, 0] [frameA])
     = Some (0, decode frameA driver0, \<lparr>clock = [], uart = [], nreads = 3, pins = []\<rparr>)
   \<and> map unat (measurement (decode frameA driver0)) = [1, 2, 3, 4, 5, 6, 7, 8, 9, 10, 11, 12]"
proof -
  have h: "getDataInternal 0 driver0 (sensor_world [0, 0, 0] [frameA])
     = Some (0, decode frameA driver0, \<lparr>clock = [], uart = [], nreads = 3, pins = []\<rparr>)"
    by code_simp
  have r: "read_frame 0 (sensor_world [0, 0, 0] [frameA])
     = Some (InTime frameA, \<lparr>clock = [], uart = [], nreads = 3, pins = []\<rparr>)"
    by code_simp
  from decode_big_endian [OF h] r have
    "map unat (measurement (decode frameA driver0)) =
        map (\<lambda>k. 256 * unat (drop 4 frameA ! (2 * k)) + unat (drop 4 frameA ! (2 * k + 1))) [0..<12]"
    by auto
  also have "\<dots> = [1, 2, 3, 4, 5, 6, 7, 8, 9, 10, 11, 12]"
    by (simp add: upt_12 frameA_def)
  finally show ?thesis using h by simp
qed

text \<open>
  Claim C8 (fails on the code).  The claim: \<open>Sleep()\<close> on a driver with a sleep pin, beside
  writing the pin low and setting the flags, makes two frame reads that drain the
  transport.  The two calls of \<open>getData\<close> come after \<open>_isSleeping = true\<close>, so each returns
  0 at its first test.  Evaluated here for a warmed-up driver whose transport holds two
  frames: a call of \<open>getData\<close> in that state reads a frame (three reads); \<open>Sleep()\<close> in the
  same state writes the pin low, sets the flags, returns true, and makes no read: both
  frames are still in the transport and the clock was not consulted.
\<close>

theorem Sleep_drains_nothing:
  "getData driverR (sensor_world (replicate 8 40000) [frameA, frameA])
     = Some (1, decode frameA driverR,
         \<lparr>clock = replicate 4 40000, uart = [frameA], nreads = 3, pins = []\<rparr>)
   \<and> Sleep driverR (sensor_world (replicate 8 40000) [frameA, frameA])
     = Some (True, driverR\<lparr>m_isReady := False, m_isSleeping := True\<rparr>,
         \<lparr>clock = replicate 8 40000, uart = [frameA, frameA], nreads = 0,
          pins = [(5, WriteLOW)]\<rparr>)"
  by code_simp

theorem Sleep_drains_nothing_witness:
  "\<exists>d' w'. Sleep driverR (sensor_world (replicate 8 40000) [frameA, frameA]) = Some (True, d', w')
     \<and> nreads w' = 0 \<and> uart w' = [frameA, frameA]"
  using Sleep_drains_nothing by simp

text \<open>
  Claim C9 (amended).  The claim has \<open>isReady()\<close> true from an elapsed time of exactly
  30000 ms on.  The code tests \<open>> PREHEAT_TIME\<close>: at 30000 ms it answers false (last
  theorem).  What holds: for an awake driver with a transport, \<open>isReady()\<close> answers true
  without reading the clock when the flag \<open>_isReady\<close> is already set; otherwise it reads
  the clock, answers whether the time since wake is strictly more than 30000 ms, and
  stores that answer in the flag.
\<close>

theorem isReady_strictly_after_preheat:
  assumes "m_uart d" "\<not> m_isSleeping d" "millis w = Some (t, w1)"
  shows "isReady d w =
    (if m_isReady d then Some (True, d, w)
     else Some (PREHEAT_TIME <s t - m_wakeUpTime d,
                d\<lparr>m_isReady := PREHEAT_TIME <s t - m_wakeUpTime d\<rparr>, w1))"
  using assms by (auto simp: isReady_def)

theorem isReady_strictly_after_preheat_witness:
  "m_uart driver0 \<and> \<not> m_isSleeping driver0
   \<and> millis (sensor_world [30001] []) = Some (30001, sensor_world [] [])
   \<and> isReady driver0 (sensor_world [30001] []) = Some (True, driverR, sensor_world [] [])"
proof -
  have h1: "m_uart driver0" by (simp add: driver0_def)
  have h2: "\<not> m_isSleeping driver0" by (simp add: driver0_def)
  have h3: "millis (sensor_world [30001] []) = Some (30001, sensor_world [] [])" by code_simp
  have e: "(if m_isReady driver0 then Some (True, driver0, sensor_world [30001] [])
     else Some (PREHEAT_TIME <s 30001 - m_wakeUpTime driver0,
                driver0\<lparr>m_isReady := PREHEAT_TIME <s 30001 - m_wakeUpTime driver0\<rparr>,
                sensor_world [] []))
     = Some (True, driverR, sensor_world [] [])"
    by code_simp
  from isReady_strictly_after_preheat [OF h1 h2 h3] e h1 h2 h3 show ?thesis by simp
qed

theorem isReady_at_limit_counterexample:
  "m_uart driver0 \<and> \<not> m_isSleeping driver0
   \<and> millis (sensor_world [30000] []) = Some (30000, sensor_world [] [])
   \<and> PREHEAT_TIME \<le>s 30000 - m_wakeUpTime driver0
   \<and> isReady driver0 (sensor_world [30000] []) = Some (False, driver0, sensor_world [] [])"
  by code_simp

text \<open>
  Claim C10 (amended).  The claim has \<open>getData\<close> and \<open>isReady\<close> gate on the identical
  condition.  \<open>isReady\<close> returns the stored flag \<open>_isReady\<close> without reading the clock
  once it is set: for the driver with the flag set and a clock value 100 ms past the wake
  time, \<open>isReady\<close> answers true while \<open>getData\<close> returns the preheat value -29 and makes
  no read (last theorem of this claim).  What holds, for a call of \<open>getData\<close> that returns:
  it has made a read of the transport exactly when it passed its guards (the driver has a
  transport, is not sleeping, and the clock value read on entry is strictly more than
  30000 ms past the wake time), and then \<open>isReady\<close>, called in that same state of driver
  and world, answers true.  While the flag is not set, \<open>isReady\<close> in that state answers
  true exactly when \<open>getData\<close> made a read, and stores its answer in the flag; with the
  flag set it answers whether the driver is awake and changes nothing.
\<close>

theorem getData_reads_only_when_ready:
  assumes "getData d w = Some (r, d', w')"
  shows "(nreads w' \<noteq> nreads w \<longleftrightarrow>
      m_uart d \<and> \<not> m_isSleeping d
      \<and> (\<exists>t w1. millis w = Some (t, w1) \<and> PREHEAT_TIME <s t - m_wakeUpTime d))
    \<and> (nreads w' \<noteq> nreads w \<longrightarrow> (\<exists>d'' w''. isReady d w = Some (True, d'', w'')))
    \<and> (\<not> m_isReady d \<longrightarrow>
        (\<exists>w''. isReady d w =
           Some (nreads w' \<noteq> nreads w, d\<lparr>m_isReady := nreads w' \<noteq> nreads w\<rparr>, w'')))
    \<and> (m_isReady d \<longrightarrow> isReady d w = Some (\<not> m_isSleeping d, d, w))"
proof -
  have flag: "m_isReady d \<longrightarrow> isReady d w = Some (\<not> m_isSleeping d, d, w)"
    by (simp add: isReady_def)
  have same: "\<not> m_isReady d \<Longrightarrow> d\<lparr>m_isReady := False\<rparr> = d"
    by simp
  show ?thesis
  proof (cases "\<not> m_uart d \<or> m_isSleeping d")
    case True
    with assms have "w' = w" by (auto simp: getData_def)
    with True flag same show ?thesis by (auto simp: isReady_def)
  next
    case False
    then have g: "m_uart d" "\<not> m_isSleeping d" by auto
    with assms obtain t w1 where m: "millis w = Some (t, w1)"
      by (auto simp: getData_def split: option.splits)
    from millis_SomeD [OF m] have n: "nreads w1 = nreads w" by simp
    show ?thesis
    proof (cases "PREHEAT_TIME <s t - m_wakeUpTime d")
      case True
      then have "\<not> t - m_wakeUpTime d \<le>s PREHEAT_TIME"
        by (simp add: word_sle_eq word_sless_alt)
      with assms g m have "tries 0 t d w1 = Some (r, d', w')"
        by (simp add: getData_def Let_def)
      from tries_reads [OF this] n have rd: "nreads w' \<noteq> nreads w" by simp
      have "\<not> m_isReady d \<longrightarrow> isReady d w = Some (True, d\<lparr>m_isReady := True\<rparr>, w1)"
        using g m True by (simp add: isReady_def)
      moreover have "\<exists>d'' w''. isReady d w = Some (True, d'', w'')"
        using g m True by (simp add: isReady_def)
      ultimately show ?thesis using g m True rd flag by auto
    next
      case F: False
      then have "t - m_wakeUpTime d \<le>s PREHEAT_TIME"
        by (simp add: word_sle_eq word_sless_alt)
      with assms g m have "w' = w1" by (simp add: getData_def Let_def)
      with n have rd: "nreads w' = nreads w" by simp
      have "\<not> m_isReady d \<longrightarrow> isReady d w = Some (False, d, w1)"
        using g m F by (simp add: isReady_def)
      with rd F m flag same show ?thesis by auto
    qed
  qed
qed

theorem getData_reads_only_when_ready_witness:
  "getData driver0 (sensor_world [30001, 30001, 30001, 30001] [frameA])
     = Some (1, decode frameA driver0, \<lparr>clock = [], uart = [], nreads = 3, pins = []\<rparr>)
   \<and> \<not> m_isReady driver0
   \<and> (\<exists>w''. isReady driver0 (sensor_world [30001, 30001, 30001, 30001] [frameA])
          = Some (True, driverR, w''))"
proof -
  have h: "getData driver0 (sensor_world [30001, 30001, 30001, 30001] [frameA])
     = Some (1, decode frameA driver0, \<lparr>clock = [], uart = [], nreads = 3, pins = []\<rparr>)"
    by code_simp
  have f: "\<not> m_isReady driver0" by (simp add: driver0_def)
  have n: "(nreads \<lparr>clock = [], uart = [], nreads = 3, pins = []\<rparr>
       \<noteq> nreads (sensor_world [30001, 30001, 30001, 30001] [frameA])) = True"
    by (simp add: sensor_world_def)
  from getData_reads_only_when_ready [OF h] f
  have "\<exists>w''. isReady driver0 (sensor_world [30001, 30001, 30001, 30001] [frameA]) =
      Some (nreads \<lparr>clock = [], uart = [], nreads = 3, pins = []\<rparr>
              \<noteq> nreads (sensor_world [30001, 30001, 30001, 30001] [frameA]),
            driver0\<lparr>m_isReady := nreads \<lparr>clock = [], uart = [], nreads = 3, pins = []\<rparr>
              \<noteq> nreads (sensor_world [30001, 30001, 30001, 30001] [frameA])\<rparr>, w'')"
    by blast
  then have "\<exists>w''. isReady driver0 (sensor_world [30001, 30001, 30001, 30001] [frameA]) =
      Some (True, driver0\<lparr>m_isReady := True\<rparr>, w'')"
    unfolding n .
  then show ?thesis using h f by (simp add: driverR_def)
qed

theorem isReady_cached_flag_counterexample:
  "m_uart driverR \<and> \<not> m_isSleeping driverR
   \<and> millis (sensor_world [100] [frameA]) = Some (100, sensor_world [] [frameA])
   \<and> \<not> PREHEAT_TIME <s 100 - m_wakeUpTime driverR
   \<and> isReady driverR (sensor_world [100] [frameA])
       = Some (True, driverR, sensor_world [100] [frameA])
   \<and> getData driverR (sensor_world [100] [frameA])
       = Some (- 29, driverR, sensor_world [] [frameA])"
  by code_simp

end
